theory Spec2Isabelle
  imports Main "HOL-Library.Multiset"
begin

section \<open>The backing vector\<close>

text \<open>
  \<^verbatim>\<open>PriorityQueue<T>\<close> has one member, \<^verbatim>\<open>std::vector<T> heap\<close>. The model of a queue is
  that vector, a list: index 0 is the filler entry, the entries live at 1 .. size().
  The element type is compared with \<^verbatim>\<open><\<close> only; it is taken to be totally ordered.

  \<^verbatim>\<open>heap[i]\<close> is \<^verbatim>\<open>std::vector::operator[]\<close>, which checks nothing: with \<^verbatim>\<open>i >= heap.size()\<close>
  the behaviour of the program is undefined. The model has two readings of it.

  \<open>at\<close> is the access audited: an index out of range is the result
  \<open>Inl (OutOfRange i n)\<close>, \<open>n\<close> the length of the vector at that moment, and the call
  stops there. \<^verbatim>\<open>min\<close>, \<^verbatim>\<open>insert\<close>, the tester and every write are modelled with it, and
  so is the audit of \<^verbatim>\<open>removeMin\<close>, \<open>removeMin_checked\<close>, which tells the first access out
  of range of a call.

  \<open>slot\<close> is the read as it runs: in range the entry, beyond the end of the vector what
  the storage holds there, \<open>mem i\<close>, about which nothing is assumed. \<^verbatim>\<open>removeMin\<close> reads
  with it: \<open>removeMin mem heap\<close> is the entry the call returns and the vector it leaves,
  and it is the same for every \<open>mem\<close>.

  \<open>EmptyCollection\<close> is the checked failure; no path of the source produces it.
\<close>

datatype error = EmptyCollection | OutOfRange nat nat

definition at :: "'a list \<Rightarrow> nat \<Rightarrow> error + 'a" where
  "at heap i = (if i < length heap then Inr (heap ! i) else Inl (OutOfRange i (length heap)))"

definition slot :: "(nat \<Rightarrow> 'a) \<Rightarrow> 'a list \<Rightarrow> nat \<Rightarrow> 'a" where
  "slot mem heap i = (if i < length heap then heap ! i else mem i)"

text \<open>
  \<^verbatim>\<open>size_t\<close> is taken as 64 bits wide. The only subtraction of the source is in
  \<^verbatim>\<open>size()\<close>; it wraps to \<open>2 ^ 64 - 1\<close> when the vector has lost its filler entry.
  Positions are at most \<^verbatim>\<open>size()\<close> wherever they are shifted, and a vector is shorter
  than \<open>2 ^ 63\<close> entries, so the shifts do not wrap and are written on \<open>nat\<close>.
\<close>

text \<open>\<^verbatim>\<open>PriorityQueue() : heap(01)\<close>: one value-initialised entry \<open>d\<close>.\<close>

definition PriorityQueue :: "'a \<Rightarrow> 'a list" where
  "PriorityQueue d = [d]"

text \<open>\<^verbatim>\<open>return (heap.size() - 01);\<close>\<close>

definition size_pq :: "'a list \<Rightarrow> nat" where
  "size_pq heap = (if length heap = 0 then 2 ^ 64 - 1 else length heap - 1)"

text \<open>\<^verbatim>\<open>return heap[01];\<close>\<close>

definition min_pq :: "'a list \<Rightarrow> error + 'a" where
  "min_pq heap = at heap 1"

text \<open>\<^verbatim>\<open>std::swap(heap[a], heap[b]);\<close>\<close>

definition swap_pq :: "'a list \<Rightarrow> nat \<Rightarrow> nat \<Rightarrow> error + 'a list" where
  "swap_pq heap a b =
     (case at heap a of Inl e \<Rightarrow> Inl e
      | Inr x \<Rightarrow>
          (case at heap b of Inl e \<Rightarrow> Inl e
           | Inr y \<Rightarrow> Inr (heap[a := y, b := x])))"

text \<open>
  \<^verbatim>\<open>return (loc>>01);\<close>, \<^verbatim>\<open>return (loc<<01);\<close> and \<^verbatim>\<open>return ((loc<<01) + 01);\<close>:
  the shifts by one bit, written as division and multiplication by 2.
\<close>

definition parent :: "nat \<Rightarrow> nat" where
  "parent loc = loc div 2"

definition leftChild :: "nat \<Rightarrow> nat" where
  "leftChild loc = 2 * loc"

definition rightChild :: "nat \<Rightarrow> nat" where
  "rightChild loc = 2 * loc + 1"

text \<open>\<^verbatim>\<open>return (leftChild(loc) <= size());\<close> and \<^verbatim>\<open>return (rightChild(loc) <= size());\<close>\<close>

definition leftInBounds :: "'a list \<Rightarrow> nat \<Rightarrow> bool" where
  "leftInBounds heap loc = (leftChild loc \<le> size_pq heap)"

definition rightInBounds :: "'a list \<Rightarrow> nat \<Rightarrow> bool" where
  "rightInBounds heap loc = (rightChild loc \<le> size_pq heap)"

text \<open>
  \<^verbatim>\<open>minChild\<close>: with both children in bounds the left one if
  \<^verbatim>\<open>heap[leftChild(pos)] < heap[rightChild(pos)]\<close>, else the right one; with the left
  child only in bounds, the left one; else \<^verbatim>\<open>pos\<close> itself.
\<close>

definition minChild :: "(nat \<Rightarrow> 'a) \<Rightarrow> ('a::linorder) list \<Rightarrow> nat \<Rightarrow> nat" where
  "minChild mem heap pos =
     (let lInBounds = leftInBounds heap pos in
      if lInBounds \<and> rightInBounds heap pos then
        (if slot mem heap (leftChild pos) < slot mem heap (rightChild pos)
         then leftChild pos else rightChild pos)
      else if lInBounds then leftChild pos
      else pos)"

section \<open>insert\<close>

text \<open>
  The loop of \<^verbatim>\<open>insert\<close>:
  \<^verbatim>\<open>while(entryNo > 01 && val < heap[parent(entryNo)])
  { swap(entryNo, parent(entryNo)); entryNo = parent(entryNo); }\<close>
\<close>

function insert_loop :: "('a::linorder) \<Rightarrow> 'a list \<Rightarrow> nat \<Rightarrow> error + 'a list" where
  "insert_loop val heap entryNo =
     (if entryNo > 1 then
        (case at heap (parent entryNo) of Inl e \<Rightarrow> Inl e
         | Inr p \<Rightarrow>
             if val < p then
               (case swap_pq heap entryNo (parent entryNo) of Inl e \<Rightarrow> Inl e
                | Inr heap' \<Rightarrow> insert_loop val heap' (parent entryNo))
             else Inr heap)
      else Inr heap)"
  by pat_completeness auto
termination
  by (relation "measure (\<lambda>(val, heap, entryNo). entryNo)") (auto simp: parent_def)

text \<open>\<^verbatim>\<open>heap.push_back(val); size_t entryNo = size();\<close> and the loop.\<close>

definition insert_pq :: "('a::linorder) \<Rightarrow> 'a list \<Rightarrow> error + 'a list" where
  "insert_pq val heap =
     (let heap1 = heap @ [val]; entryNo = size_pq heap1
      in insert_loop val heap1 entryNo)"

section \<open>removeMin\<close>

text \<open>
  The loop of \<^verbatim>\<open>removeMin\<close>:
  \<^verbatim>\<open>while(heap[(swaper = minChild(i))] < heap[i]) { swap(i, swaper); i = swaper; }\<close>
  The two reads of the condition are reads as they run; the swap writes, and is audited.
\<close>

function removeMin_loop :: "(nat \<Rightarrow> 'a) \<Rightarrow> ('a::linorder) list \<Rightarrow> nat \<Rightarrow> error + 'a list" where
  "removeMin_loop mem heap i =
     (let swaper = minChild mem heap i in
      if slot mem heap swaper < slot mem heap i then
        (case swap_pq heap i swaper of Inl e \<Rightarrow> Inl e
         | Inr heap' \<Rightarrow> removeMin_loop mem heap' swaper)
      else Inr heap)"
  by pat_completeness auto
termination
proof (relation "measure (\<lambda>(mem, heap, i). length heap - i)", goal_cases)
  case 1
  show ?case by simp
next
  case (2 mem heap i swaper heap')
  from 2(1) have c: "swaper = i \<or> swaper = 2 * i \<or> swaper = 2 * i + 1"
    by (auto simp: minChild_def Let_def leftChild_def rightChild_def split: if_splits)
  from 2(3) have l: "swaper < length heap" "length heap' = length heap"
    by (auto simp: at_def swap_pq_def split: if_splits sum.splits)
  from 2(2) have "swaper \<noteq> i" by auto
  with c have "i < swaper" by auto
  with l show ?case by simp
qed

text \<open>
  \<^verbatim>\<open>T save = heap[1]; heap[1] = heap.back(); heap.pop_back();\<close>, the loop from
  \<^verbatim>\<open>i = 1\<close>, and \<^verbatim>\<open>return save;\<close>. The result is the returned entry and the vector
  the call leaves. The assignment to \<^verbatim>\<open>heap[1]\<close> is a write: on a vector of the filler
  entry only it is out of range, and the call stops there.
\<close>

definition removeMin :: "(nat \<Rightarrow> 'a) \<Rightarrow> ('a::linorder) list \<Rightarrow> error + ('a \<times> 'a list)" where
  "removeMin mem heap =
     (let save = slot mem heap 1 in
      if 1 < length heap then
        (let heap1 = heap[1 := last heap]; heap2 = butlast heap1 in
         case removeMin_loop mem heap2 1 of Inl e \<Rightarrow> Inl e
         | Inr heap3 \<Rightarrow> Inr (save, heap3))
      else Inl (OutOfRange 1 (length heap)))"

section \<open>removeMin, every access audited\<close>

text \<open>
  The same three functions with every read through \<open>at\<close>: the result \<open>Inl\<close> is the first
  access of the call that is out of range.
\<close>

definition minChild_checked :: "('a::linorder) list \<Rightarrow> nat \<Rightarrow> error + nat" where
  "minChild_checked heap pos =
     (let lInBounds = leftInBounds heap pos in
      if lInBounds \<and> rightInBounds heap pos then
        (case at heap (leftChild pos) of Inl e \<Rightarrow> Inl e
         | Inr l \<Rightarrow>
             (case at heap (rightChild pos) of Inl e \<Rightarrow> Inl e
              | Inr r \<Rightarrow> Inr (if l < r then leftChild pos else rightChild pos)))
      else if lInBounds then Inr (leftChild pos)
      else Inr pos)"

function removeMin_loop_checked :: "('a::linorder) list \<Rightarrow> nat \<Rightarrow> error + 'a list" where
  "removeMin_loop_checked heap i =
     (case minChild_checked heap i of Inl e \<Rightarrow> Inl e
      | Inr swaper \<Rightarrow>
          (case at heap swaper of Inl e \<Rightarrow> Inl e
           | Inr x \<Rightarrow>
               (case at heap i of Inl e \<Rightarrow> Inl e
                | Inr y \<Rightarrow>
                    if x < y then
                      (case swap_pq heap i swaper of Inl e \<Rightarrow> Inl e
                       | Inr heap' \<Rightarrow> removeMin_loop_checked heap' swaper)
                    else Inr heap)))"
  by pat_completeness auto
termination
proof (relation "measure (\<lambda>(heap, i). length heap - i)", goal_cases)
  case 1
  show ?case by simp
next
  case (2 heap i swaper x y heap')
  from 2(1) have c: "swaper = i \<or> swaper = 2 * i \<or> swaper = 2 * i + 1"
    by (auto simp: minChild_checked_def Let_def leftChild_def rightChild_def
        split: if_splits sum.splits)
  from 2(2) have s: "swaper < length heap" "x = heap ! swaper"
    by (auto simp: at_def split: if_splits)
  from 2(3) have y: "y = heap ! i"
    by (auto simp: at_def split: if_splits)
  from 2(5) have l: "length heap' = length heap"
    by (auto simp: at_def swap_pq_def split: if_splits sum.splits)
  from 2(4) s y have "swaper \<noteq> i" by auto
  with c have "i < swaper" by auto
  with s l show ?case by simp
qed

definition removeMin_checked :: "('a::linorder) list \<Rightarrow> error + ('a \<times> 'a list)" where
  "removeMin_checked heap =
     (case at heap 1 of Inl e \<Rightarrow> Inl e
      | Inr save \<Rightarrow>
          (let heap1 = heap[1 := last heap]; heap2 = butlast heap1 in
           case removeMin_loop_checked heap2 1 of Inl e \<Rightarrow> Inl e
           | Inr heap3 \<Rightarrow> Inr (save, heap3)))"

section \<open>The tester\<close>

text \<open>\<^verbatim>\<open>p->heap[a] < p->heap[b]\<close>, both reads unchecked in the source.\<close>

definition less_at :: "('a::linorder) list \<Rightarrow> nat \<Rightarrow> nat \<Rightarrow> error + bool" where
  "less_at heap a b =
     (case at heap a of Inl e \<Rightarrow> Inl e
      | Inr x \<Rightarrow> (case at heap b of Inl e \<Rightarrow> Inl e | Inr y \<Rightarrow> Inr (x < y)))"

text \<open>
  \<^verbatim>\<open>tester<T>::isHeapOrder\<close>: the loop \<^verbatim>\<open>for(unsigned int i = 1; i <= p->size(); ++i)\<close>
  with its three guarded \<^verbatim>\<open>yes &= ...\<close>; a guard that is false leaves \<^verbatim>\<open>yes\<close> as it
  is. The counter is written on \<open>nat\<close>: it does not wrap below \<open>2 ^ 32\<close> entries.
\<close>

function isHeapOrder_loop :: "('a::linorder) list \<Rightarrow> nat \<Rightarrow> bool \<Rightarrow> error + bool" where
  "isHeapOrder_loop heap i yes =
     (if i \<le> size_pq heap then
        (case (if parent i > 0 then less_at heap (parent i) i else Inr True) of
           Inl e \<Rightarrow> Inl e
         | Inr c1 \<Rightarrow>
             (case (if leftInBounds heap i then less_at heap i (leftChild i) else Inr True) of
                Inl e \<Rightarrow> Inl e
              | Inr c2 \<Rightarrow>
                  (case (if rightInBounds heap i then less_at heap i (rightChild i)
                         else Inr True) of
                     Inl e \<Rightarrow> Inl e
                   | Inr c3 \<Rightarrow> isHeapOrder_loop heap (i + 1) (yes \<and> c1 \<and> c2 \<and> c3))))
      else Inr yes)"
  by pat_completeness auto
termination
  by (relation "measure (\<lambda>(heap, i, yes). size_pq heap + 1 - i)") auto

definition isHeapOrder :: "('a::linorder) list \<Rightarrow> error + bool" where
  "isHeapOrder heap = isHeapOrder_loop heap 1 True"

section \<open>Sequences of calls\<close>

datatype 'a call = Insert 'a | RemoveMin

fun step :: "(nat \<Rightarrow> 'a) \<Rightarrow> ('a::linorder) call \<Rightarrow> 'a list \<Rightarrow> error + 'a list" where
  "step mem (Insert v) heap = insert_pq v heap"
| "step mem RemoveMin heap =
     (case removeMin mem heap of Inl e \<Rightarrow> Inl e | Inr (x, heap') \<Rightarrow> Inr heap')"

text \<open>A sequence of calls on one queue; it stops at the first call that stops.\<close>

fun run :: "(nat \<Rightarrow> 'a) \<Rightarrow> ('a::linorder) call list \<Rightarrow> 'a list \<Rightarrow> error + 'a list" where
  "run mem [] heap = Inr heap"
| "run mem (c # cs) heap =
     (case step mem c heap of Inl e \<Rightarrow> Inl e | Inr heap' \<Rightarrow> run mem cs heap')"

text \<open>
  The condition on a sequence that it calls \<^verbatim>\<open>removeMin\<close> on a non-empty queue only,
  for a sequence that starts on a queue of \<open>n\<close> entries: an \<^verbatim>\<open>insert\<close> adds an entry, a
  \<^verbatim>\<open>removeMin\<close> needs one and takes one.
\<close>

fun removals_nonempty :: "'a call list \<Rightarrow> nat \<Rightarrow> bool" where
  "removals_nonempty [] n = True"
| "removals_nonempty (Insert v # cs) n = removals_nonempty cs (n + 1)"
| "removals_nonempty (RemoveMin # cs) n = (1 \<le> n \<and> removals_nonempty cs (n - 1))"

text \<open>
  The two loops of the test driver: \<^verbatim>\<open>p.insert(t)\<close> for every entry in turn, then
  \<^verbatim>\<open>p.removeMin()\<close> a given number of times, the returned entries collected in order.
\<close>

fun insert_all :: "('a::linorder) list \<Rightarrow> 'a list \<Rightarrow> error + 'a list" where
  "insert_all [] heap = Inr heap"
| "insert_all (v # vs) heap =
     (case insert_pq v heap of Inl e \<Rightarrow> Inl e | Inr heap' \<Rightarrow> insert_all vs heap')"

fun removeMin_n ::
  "(nat \<Rightarrow> 'a) \<Rightarrow> nat \<Rightarrow> ('a::linorder) list \<Rightarrow> error + ('a list \<times> 'a list)" where
  "removeMin_n mem 0 heap = Inr ([], heap)"
| "removeMin_n mem (Suc n) heap =
     (case removeMin mem heap of Inl e \<Rightarrow> Inl e
      | Inr (x, heap') \<Rightarrow>
          (case removeMin_n mem n heap' of Inl e \<Rightarrow> Inl e
           | Inr (xs, heap'') \<Rightarrow> Inr (x # xs, heap'')))"

section \<open>Properties of a queue\<close>

text \<open>The stored entries: everything after the filler entry.\<close>

definition entries :: "'a list \<Rightarrow> 'a multiset" where
  "entries heap = mset (tl heap)"

text \<open>
  The heap-order property: no entry at a position 2 .. size() is strictly less than
  the entry at its parent position.
\<close>

definition heap_order :: "('a::linorder) list \<Rightarrow> bool" where
  "heap_order heap = (\<forall>i \<in> {2..size_pq heap}. \<not> heap ! i < heap ! parent i)"

text \<open>The calls of a sequence, counted.\<close>

definition inserts :: "'a call list \<Rightarrow> nat" where
  "inserts cs = length (filter (\<lambda>c. c \<noteq> RemoveMin) cs)"

definition removals :: "'a call list \<Rightarrow> nat" where
  "removals cs = length (filter (\<lambda>c. c = RemoveMin) cs)"

text \<open>
  The relation the tester checks at one position \<open>i\<close>: the parent's entry, when
  \<open>i\<close> has a parent, is strictly less than the entry at \<open>i\<close>, which is strictly less
  than the entry of each child in bounds.
\<close>

definition strict_relation_at :: "('a::linorder) list \<Rightarrow> nat \<Rightarrow> bool" where
  "strict_relation_at heap i =
     ((parent i > 0 \<longrightarrow> heap ! parent i < heap ! i) \<and>
      (leftInBounds heap i \<longrightarrow> heap ! i < heap ! leftChild i) \<and>
      (rightInBounds heap i \<longrightarrow> heap ! i < heap ! rightChild i))"

text \<open>No entry is equal to the entry at its parent position.\<close>

definition no_equal_parent :: "'a list \<Rightarrow> bool" where
  "no_equal_parent heap = (\<forall>i \<in> {2..size_pq heap}. heap ! parent i \<noteq> heap ! i)"

text \<open>
  The same property with the parent written out, on a vector of any length, and the two
  loop invariants: the vector is in heap order except between position \<open>k\<close> and its
  parent (sift-up), or except between position \<open>i\<close> and its children (sift-down); in
  both the entries below the gap are not less than the entry above it.
\<close>

definition parents_le :: "('a::linorder) list \<Rightarrow> bool" where
  "parents_le a = (\<forall>i. 2 \<le> i \<and> i < length a \<longrightarrow> a ! (i div 2) \<le> a ! i)"

definition sift_up_inv :: "('a::linorder) list \<Rightarrow> nat \<Rightarrow> bool" where
  "sift_up_inv a k =
     ((\<forall>i. 2 \<le> i \<and> i < length a \<and> i \<noteq> k \<longrightarrow> a ! (i div 2) \<le> a ! i) \<and>
      (\<forall>i. 2 \<le> i \<and> i < length a \<and> i div 2 = k \<and> 2 \<le> k \<longrightarrow> a ! (k div 2) \<le> a ! i))"

definition sift_down_inv :: "('a::linorder) list \<Rightarrow> nat \<Rightarrow> bool" where
  "sift_down_inv a i =
     ((\<forall>j. 2 \<le> j \<and> j < length a \<and> j div 2 \<noteq> i \<longrightarrow> a ! (j div 2) \<le> a ! j) \<and>
      (\<forall>j. 2 \<le> j \<and> j < length a \<and> j div 2 = i \<and> 2 \<le> i \<longrightarrow> a ! (i div 2) \<le> a ! j))"

section \<open>The two algorithms as the specification words them\<close>

text \<open>
  Sift-up: while the new element is strictly less than its parent, swap the two and
  continue from the parent's former position; stop at the root or when the element is
  no longer strictly less than its parent.
\<close>

function sift_up_spec :: "('a::linorder) list \<Rightarrow> nat \<Rightarrow> 'a list" where
  "sift_up_spec a k =
     (if 1 < k \<and> a ! k < a ! (k div 2)
      then sift_up_spec (a[k := a ! (k div 2), k div 2 := a ! k]) (k div 2)
      else a)"
  by pat_completeness auto
termination
  by (relation "measure (\<lambda>(a, k). k)") auto

text \<open>Append the value at the next free position at the end of the array, then sift up.\<close>

definition insert_spec :: "('a::linorder) \<Rightarrow> 'a list \<Rightarrow> 'a list" where
  "insert_spec v a = sift_up_spec (a @ [v]) (length a)"

text \<open>
  The minimum child of a position: of two children in bounds the one holding the
  smaller value under strict \<open><\<close> (the right one when the two values are equal, a
  deterministic choice); the left child when only it is in bounds; the position itself
  when neither is.
\<close>

definition min_child_spec :: "('a::linorder) list \<Rightarrow> nat \<Rightarrow> nat" where
  "min_child_spec a i =
     (let n = length a - 1 in
      if 2 * i + 1 \<le> n then (if a ! (2 * i) < a ! (2 * i + 1) then 2 * i else 2 * i + 1)
      else if 2 * i \<le> n then 2 * i
      else i)"

text \<open>
  Sift-down: while the element at the minimum-child position is strictly less than the
  element at the current position, swap them and continue from the minimum-child
  position.
\<close>

function sift_down_spec :: "('a::linorder) list \<Rightarrow> nat \<Rightarrow> 'a list" where
  "sift_down_spec a i =
     (let m = min_child_spec a i in
      if a ! m < a ! i then sift_down_spec (a[i := a ! m, m := a ! i]) m else a)"
  by pat_completeness auto
termination
proof (relation "measure (\<lambda>(a, i). length a - i)", goal_cases)
  case 1
  show ?case by simp
next
  case (2 a i m)
  from 2 have "m \<noteq> i" by auto
  moreover from 2(1) have "m = i \<or> (m = 2 * i \<or> m = 2 * i + 1) \<and> m < length a"
    by (auto simp: min_child_spec_def Let_def)
  ultimately have "i < m" "m < length a" by auto
  then show ?case by simp
qed

text \<open>
  Save the root element, move the last element of the array into the root position,
  shrink the size by one, sift down from the root if the heap is now non-empty, and
  return the saved root element.
\<close>

definition removeMin_spec :: "('a::linorder) list \<Rightarrow> 'a \<times> 'a list" where
  "removeMin_spec a =
     (let save = a ! 1; a1 = butlast (a[1 := last a])
      in (save, if 1 < length a1 then sift_down_spec a1 1 else a1))"

section \<open>Reads in range\<close>

declare sift_up_spec.simps [simp del]
declare sift_down_spec.simps [simp del]
declare insert_loop.simps [simp del]
declare removeMin_loop.simps [simp del]
declare removeMin_loop_checked.simps [simp del]
declare isHeapOrder_loop.simps [simp del]

lemma at_in [simp]: "i < length heap \<Longrightarrow> at heap i = Inr (heap ! i)"
  by (simp add: at_def)

lemma at_out [simp]: "\<not> i < length heap \<Longrightarrow> at heap i = Inl (OutOfRange i (length heap))"
  by (simp add: at_def)

lemma slot_in [simp]: "i < length heap \<Longrightarrow> slot mem heap i = heap ! i"
  by (simp add: slot_def)

lemma size_pq_nonempty [simp]: "heap \<noteq> [] \<Longrightarrow> size_pq heap = length heap - 1"
  by (simp add: size_pq_def)

lemma swap_pq_in [simp]:
  "a < length heap \<Longrightarrow> b < length heap \<Longrightarrow>
   swap_pq heap a b = Inr (heap[a := heap ! b, b := heap ! a])"
  by (simp add: swap_pq_def)

lemma min_child_spec_cases:
  "min_child_spec a i = i \<or>
   (min_child_spec a i = 2 * i \<or> min_child_spec a i = 2 * i + 1) \<and>
   min_child_spec a i < length a"
  by (auto simp: min_child_spec_def Let_def)

text \<open>
  The reads of \<^verbatim>\<open>minChild\<close> are guarded by the bounds checks and are in range on every
  vector that has its filler entry.
\<close>

lemma minChild_spec: "heap \<noteq> [] \<Longrightarrow> minChild mem heap i = min_child_spec heap i"
  by (auto simp: minChild_def min_child_spec_def Let_def leftInBounds_def rightInBounds_def
      leftChild_def rightChild_def)

lemma minChild_checked_spec:
  "heap \<noteq> [] \<Longrightarrow> minChild_checked heap i = Inr (min_child_spec heap i)"
  by (auto simp: minChild_checked_def min_child_spec_def Let_def leftInBounds_def
      rightInBounds_def leftChild_def rightChild_def)

text \<open>
  The loop of \<^verbatim>\<open>insert\<close> reads and swaps in range from every position of the vector
  that holds the new value, and computes the sift-up.
\<close>

lemma insert_loop_spec:
  "k < length heap \<Longrightarrow> heap ! k = v \<Longrightarrow> insert_loop v heap k = Inr (sift_up_spec heap k)"
proof (induction heap k rule: sift_up_spec.induct)
  case (1 a k)
  show ?case
  proof (cases "1 < k \<and> a ! k < a ! (k div 2)")
    case True
    with 1 show ?thesis
      by (subst insert_loop.simps, subst sift_up_spec.simps) (simp add: parent_def)
  next
    case False
    with 1 show ?thesis
      by (subst insert_loop.simps, subst sift_up_spec.simps) (auto simp: parent_def)
  qed
qed

text \<open>
  The loop of \<^verbatim>\<open>removeMin\<close> reads and swaps in range from every position
  \<open>1 \<le> i < length heap\<close>, and computes the sift-down, in both readings.
\<close>

lemma removeMin_loop_spec:
  "1 \<le> i \<Longrightarrow> i < length heap \<Longrightarrow> removeMin_loop mem heap i = Inr (sift_down_spec heap i)"
proof (induction heap i rule: sift_down_spec.induct)
  case (1 a i)
  let ?m = "min_child_spec a i"
  from 1(3) have ne: "a \<noteq> []" by auto
  from min_child_spec_cases[of a i] 1(3) have m: "?m < length a" by auto
  show ?case
  proof (cases "a ! ?m < a ! i")
    case True
    then have "?m \<noteq> i" by auto
    with min_child_spec_cases[of a i] have "1 \<le> ?m" using 1(2) by auto
    with 1 True m ne show ?thesis
      by (subst removeMin_loop.simps, subst sift_down_spec.simps)
        (simp add: minChild_spec Let_def)
  next
    case False
    with 1 m ne show ?thesis
      by (subst removeMin_loop.simps, subst sift_down_spec.simps)
        (simp add: minChild_spec Let_def)
  qed
qed

lemma removeMin_loop_checked_spec:
  "1 \<le> i \<Longrightarrow> i < length heap \<Longrightarrow>
   removeMin_loop_checked heap i = Inr (sift_down_spec heap i)"
proof (induction heap i rule: sift_down_spec.induct)
  case (1 a i)
  let ?m = "min_child_spec a i"
  from 1(3) have ne: "a \<noteq> []" by auto
  from min_child_spec_cases[of a i] 1(3) have m: "?m < length a" by auto
  show ?case
  proof (cases "a ! ?m < a ! i")
    case True
    then have "?m \<noteq> i" by auto
    with min_child_spec_cases[of a i] have "1 \<le> ?m" using 1(2) by auto
    with 1 True m ne show ?thesis
      by (subst removeMin_loop_checked.simps, subst sift_down_spec.simps)
        (simp add: minChild_checked_spec Let_def)
  next
    case False
    with 1 m ne show ?thesis
      by (subst removeMin_loop_checked.simps, subst sift_down_spec.simps)
        (simp add: minChild_checked_spec Let_def)
  qed
qed

text \<open>
  With no entry at position 1 the loop condition compares the slot beyond the end of
  the vector with itself: the read is out of range, and the comparison is false whatever
  the slot holds, so the loop ends at once.
\<close>

lemma removeMin_loop_filler_only: "removeMin_loop mem [d] 1 = Inr [d]"
  by (subst removeMin_loop.simps)
    (simp add: minChild_def leftInBounds_def rightInBounds_def leftChild_def rightChild_def)

lemma removeMin_loop_checked_filler_only: "removeMin_loop_checked [d] 1 = Inl (OutOfRange 1 1)"
  by (subst removeMin_loop_checked.simps)
    (simp add: minChild_checked_def leftInBounds_def rightInBounds_def leftChild_def
      rightChild_def)

lemma insert_pq_spec: "insert_pq v heap = Inr (insert_spec v heap)"
  by (simp add: insert_pq_def insert_spec_def insert_loop_spec size_pq_def)

lemma length_two: "length heap = 2 \<Longrightarrow> heap = [heap ! 0, heap ! 1]"
  by (cases heap; cases "tl heap") auto

text \<open>What \<^verbatim>\<open>removeMin\<close> returns and leaves, on every queue of one entry or more.\<close>

lemma removeMin_spec_eq:
  assumes "2 \<le> length heap"
  shows "removeMin mem heap = Inr (removeMin_spec heap)"
proof (cases "length heap = 2")
  case True
  then obtain d x where h: "heap = [d, x]" using length_two by blast
  have "butlast ([d, x][1 := last [d, x]]) = [d]" by simp
  then have "removeMin mem [d, x] = Inr (x, [d])"
    unfolding removeMin_def Let_def
    by (simp only: removeMin_loop_filler_only sum.case) (simp add: slot_def)
  moreover have "removeMin_spec [d, x] = (x, [d])" by (simp add: removeMin_spec_def)
  ultimately show ?thesis by (simp add: h)
next
  case False
  let ?a = "butlast (heap[1 := last heap])"
  from False assms have l: "1 < length ?a" "1 < length heap" by simp_all
  then have "removeMin_loop mem ?a 1 = Inr (sift_down_spec ?a 1)"
    by (simp add: removeMin_loop_spec)
  then show ?thesis
    using l by (simp add: removeMin_def removeMin_spec_def Let_def del: One_nat_def)
qed

lemma removeMin_no_entry:
  "length heap \<le> 1 \<Longrightarrow> removeMin mem heap = Inl (OutOfRange 1 (length heap))"
  by (simp add: removeMin_def)

text \<open>The audit: in range from two entries on, out of range on one entry or none.\<close>

lemma removeMin_checked_spec_eq:
  assumes "3 \<le> length heap"
  shows "removeMin_checked heap = Inr (removeMin_spec heap)"
proof -
  let ?a = "butlast (heap[1 := last heap])"
  from assms have "1 < length ?a" by simp
  then have "removeMin_loop_checked ?a 1 = Inr (sift_down_spec ?a 1)"
    by (simp add: removeMin_loop_checked_spec)
  moreover from assms have "1 < length heap" by simp
  ultimately show ?thesis
    using \<open>1 < length ?a\<close>
    by (simp add: removeMin_checked_def removeMin_spec_def Let_def del: One_nat_def)
qed

lemma removeMin_checked_one_entry: "removeMin_checked [d, x] = Inl (OutOfRange 1 1)"
proof -
  have "butlast ([d, x][1 := last [d, x]]) = [d]" by simp
  moreover have "at [d, x] 1 = Inr x" by simp
  ultimately show ?thesis
    unfolding removeMin_checked_def Let_def
    by (simp only: removeMin_loop_checked_filler_only sum.case)
qed

lemma removeMin_checked_no_entry:
  "length heap \<le> 1 \<Longrightarrow> removeMin_checked heap = Inl (OutOfRange 1 (length heap))"
  by (simp add: removeMin_checked_def)

text \<open>Where no access is out of range the two readings agree.\<close>

lemma removeMin_checked_agrees:
  assumes "removeMin_checked heap = Inr r"
  shows "removeMin mem heap = Inr r"
proof -
  have "3 \<le> length heap"
  proof (rule ccontr)
    assume "\<not> 3 \<le> length heap"
    then consider "length heap \<le> 1" | "length heap = 2" by linarith
    then show False
    proof cases
      case 1
      with assms show False by (simp add: removeMin_checked_no_entry)
    next
      case 2
      then obtain d x where "heap = [d, x]" using length_two by blast
      with assms show False by (simp add: removeMin_checked_one_entry)
    qed
  qed
  with assms show ?thesis by (simp add: removeMin_checked_spec_eq removeMin_spec_eq)
qed

section \<open>Heap order, stored entries and the filler entry\<close>

lemma heap_order_parents_le: "a \<noteq> [] \<Longrightarrow> heap_order a = parents_le a"
  by (auto simp: heap_order_def parents_le_def parent_def not_less)

lemma length_sift_up_spec [simp]: "length (sift_up_spec a k) = length a"
  by (induction a k rule: sift_up_spec.induct) (subst sift_up_spec.simps, simp)

lemma length_sift_down_spec [simp]: "length (sift_down_spec a i) = length a"
  by (induction a i rule: sift_down_spec.induct) (subst sift_down_spec.simps, simp add: Let_def)

lemma sift_up_inv_step:
  assumes "sift_up_inv a k" "1 < k" "k < length a" "a ! k < a ! (k div 2)"
  shows "sift_up_inv (a[k := a ! (k div 2), k div 2 := a ! k]) (k div 2)"
proof -
  let ?p = "k div 2"
  let ?b = "a[k := a ! ?p, ?p := a ! k]"
  from assms have pk: "?p < k" "1 \<le> ?p" "?p < length a" by auto
  have b: "\<And>i. i < length a \<Longrightarrow> ?b ! i = (if i = ?p then a ! k else if i = k then a ! ?p else a ! i)"
    using pk assms(3) by (simp add: nth_list_update)
  from assms(1) have A1: "\<And>i. 2 \<le> i \<Longrightarrow> i < length a \<Longrightarrow> i \<noteq> k \<Longrightarrow> a ! (i div 2) \<le> a ! i"
    and A2: "\<And>i. 2 \<le> i \<Longrightarrow> i < length a \<Longrightarrow> i div 2 = k \<Longrightarrow> a ! ?p \<le> a ! i"
    using assms(2) by (auto simp: sift_up_inv_def)
  have 1: "?b ! (i div 2) \<le> ?b ! i" if i: "2 \<le> i" "i < length a" "i \<noteq> ?p" for i
  proof -
    from i have i2: "i div 2 < length a" by auto
    show ?thesis
    proof (cases "i = k")
      case True
      with i i2 assms(4) pk show ?thesis by (simp add: b)
    next
      case ik: False
      show ?thesis
      proof (cases "i div 2 = k")
        case True
        with A2[OF i(1,2)] i i2 ik pk show ?thesis by (simp add: b)
      next
        case nk: False
        show ?thesis
        proof (cases "i div 2 = ?p")
          case True
          from A1[OF i(1,2) ik] True assms(4) have "a ! k \<le> a ! i" by auto
          with True i i2 ik nk pk show ?thesis by (simp add: b)
        next
          case False
          with A1[OF i(1,2) ik] i i2 ik nk pk show ?thesis by (simp add: b)
        qed
      qed
    qed
  qed
  have 2: "?b ! (?p div 2) \<le> ?b ! i" if i: "2 \<le> i" "i < length a" "i div 2 = ?p" "2 \<le> ?p" for i
  proof -
    from i pk have pp: "?p div 2 \<noteq> ?p" "?p div 2 < length a" "?p div 2 \<noteq> k" by auto
    from A1[of ?p] i(4) pk have gp: "a ! (?p div 2) \<le> a ! ?p" by auto
    show ?thesis
    proof (cases "i = k")
      case True
      with gp pp pk i show ?thesis by (simp add: b)
    next
      case False
      from A1[OF i(1,2) False] i(3) have "a ! ?p \<le> a ! i" by simp
      with gp have "a ! (?p div 2) \<le> a ! i" by auto
      moreover from i pk have "i \<noteq> ?p" by auto
      ultimately show ?thesis using False pp pk i by (simp add: b)
    qed
  qed
  show ?thesis
    unfolding sift_up_inv_def length_list_update using 1 2 by blast
qed

lemma sift_up_inv_done:
  assumes "sift_up_inv a k" "k < length a" "\<not> (1 < k \<and> a ! k < a ! (k div 2))"
  shows "parents_le a"
  unfolding parents_le_def
proof (intro allI impI)
  fix i assume i: "2 \<le> i \<and> i < length a"
  show "a ! (i div 2) \<le> a ! i"
  proof (cases "i = k")
    case True
    with i assms(3) show ?thesis by auto
  next
    case False
    with assms(1) i show ?thesis by (auto simp: sift_up_inv_def)
  qed
qed

lemma parents_le_sift_up_spec:
  "sift_up_inv a k \<Longrightarrow> k < length a \<Longrightarrow> parents_le (sift_up_spec a k)"
proof (induction a k rule: sift_up_spec.induct)
  case (1 a k)
  show ?case
  proof (cases "1 < k \<and> a ! k < a ! (k div 2)")
    case True
    then have "sift_up_spec a k = sift_up_spec (a[k := a ! (k div 2), k div 2 := a ! k]) (k div 2)"
      by (subst sift_up_spec.simps) simp
    moreover from True 1(2,3) have "sift_up_inv (a[k := a ! (k div 2), k div 2 := a ! k]) (k div 2)"
      by (intro sift_up_inv_step) auto
    moreover from True 1(3) have "k div 2 < length a" by auto
    ultimately show ?thesis using 1(1) True by simp
  next
    case False
    then have "sift_up_spec a k = a"
      by (subst sift_up_spec.simps) auto
    with 1(2,3) False sift_up_inv_done[of a k] show ?thesis by simp
  qed
qed

lemma min_child_spec_le:
  assumes "j div 2 = i" "j < length a" "1 \<le> i"
  shows "a ! min_child_spec a i \<le> a ! j"
proof -
  from assms(1) have "j = 2 * i \<or> j = 2 * i + 1" by auto
  with assms show ?thesis
    by (auto simp: min_child_spec_def Let_def)
qed

lemma sift_down_inv_step:
  assumes "sift_down_inv a i" "1 \<le> i" "i < length a" "a ! min_child_spec a i < a ! i"
  shows "sift_down_inv (a[i := a ! min_child_spec a i, min_child_spec a i := a ! i]) (min_child_spec a i)"
proof -
  let ?m = "min_child_spec a i"
  let ?b = "a[i := a ! ?m, ?m := a ! i]"
  from assms(4) have mi: "?m \<noteq> i" by auto
  with min_child_spec_cases[of a i] assms(2)
  have m: "?m < length a" "i < ?m" "?m div 2 = i" by auto
  have b: "\<And>x. x < length a \<Longrightarrow> ?b ! x = (if x = ?m then a ! i else if x = i then a ! ?m else a ! x)"
    using m assms(3) by (simp add: nth_list_update)
  from assms(1) have D1: "\<And>j. 2 \<le> j \<Longrightarrow> j < length a \<Longrightarrow> j div 2 \<noteq> i \<Longrightarrow> a ! (j div 2) \<le> a ! j"
    and D2: "\<And>j. 2 \<le> j \<Longrightarrow> j < length a \<Longrightarrow> j div 2 = i \<Longrightarrow> 2 \<le> i \<Longrightarrow> a ! (i div 2) \<le> a ! j"
    by (auto simp: sift_down_inv_def)
  have 1: "?b ! (j div 2) \<le> ?b ! j" if j: "2 \<le> j" "j < length a" "j div 2 \<noteq> ?m" for j
  proof -
    from j have j2: "j div 2 < length a" by auto
    show ?thesis
    proof (cases "j div 2 = i")
      case True
      with assms(2) j have ji: "j \<noteq> i" by auto
      show ?thesis
      proof (cases "j = ?m")
        case True
        with \<open>j div 2 = i\<close> assms(3,4) m mi show ?thesis by (simp add: b)
      next
        case False
        from min_child_spec_le[OF True j(2) assms(2)] have "a ! ?m \<le> a ! j" .
        with True False ji j assms(3) mi show ?thesis by (simp add: b)
      qed
    next
      case ni: False
      show ?thesis
      proof (cases "j = i")
        case True
        with j have "2 \<le> i" by simp
        from D2[OF _ m(1) m(3) this] m assms(2) have "a ! (i div 2) \<le> a ! ?m" by auto
        with True ni j j2 mi show ?thesis by (simp add: b)
      next
        case False
        from ni m have "j \<noteq> ?m" by auto
        with D1[OF j(1,2) ni] False ni j j2 show ?thesis by (simp add: b)
      qed
    qed
  qed
  have 2: "?b ! (?m div 2) \<le> ?b ! j" if j: "2 \<le> j" "j < length a" "j div 2 = ?m" for j
  proof -
    from j m have "j \<noteq> ?m" "j \<noteq> i" by auto
    moreover from D1[OF j(1,2)] j(3) mi have "a ! ?m \<le> a ! j" by simp
    ultimately show ?thesis using m j assms(3) mi by (simp add: b)
  qed
  show ?thesis
    unfolding sift_down_inv_def length_list_update using 1 2 by blast
qed

lemma sift_down_inv_done:
  assumes "sift_down_inv a i" "1 \<le> i" "i < length a" "\<not> a ! min_child_spec a i < a ! i"
  shows "parents_le a"
  unfolding parents_le_def
proof (intro allI impI)
  fix j assume j: "2 \<le> j \<and> j < length a"
  show "a ! (j div 2) \<le> a ! j"
  proof (cases "j div 2 = i")
    case True
    from j have "j < length a" by simp
    from min_child_spec_le[OF True this assms(2)] have "a ! min_child_spec a i \<le> a ! j" .
    with assms(4) True show ?thesis by auto
  next
    case False
    with assms(1) j show ?thesis by (auto simp: sift_down_inv_def)
  qed
qed

lemma parents_le_sift_down_spec:
  "sift_down_inv a i \<Longrightarrow> 1 \<le> i \<Longrightarrow> i < length a \<Longrightarrow> parents_le (sift_down_spec a i)"
proof (induction a i rule: sift_down_spec.induct)
  case (1 a i)
  let ?m = "min_child_spec a i"
  show ?case
  proof (cases "a ! ?m < a ! i")
    case True
    then have eq: "sift_down_spec a i = sift_down_spec (a[i := a ! ?m, ?m := a ! i]) ?m"
      by (subst sift_down_spec.simps) (simp add: Let_def)
    from True have "?m \<noteq> i" by auto
    with min_child_spec_cases[of a i] 1(3) have m: "1 \<le> ?m" "?m < length a" by auto
    from sift_down_inv_step[OF 1(2,3,4) True] m 1(1)[OF refl True] eq show ?thesis by simp
  next
    case False
    then have "sift_down_spec a i = a"
      by (subst sift_down_spec.simps) (simp add: Let_def)
    with sift_down_inv_done[OF 1(2,3,4) False] show ?thesis by simp
  qed
qed

lemma mset_sift_up_spec: "k < length a \<Longrightarrow> mset (sift_up_spec a k) = mset a"
proof (induction a k rule: sift_up_spec.induct)
  case (1 a k)
  show ?case
  proof (cases "1 < k \<and> a ! k < a ! (k div 2)")
    case True
    with 1 have p: "k div 2 < length a" by auto
    from True have "sift_up_spec a k = sift_up_spec (a[k := a ! (k div 2), k div 2 := a ! k]) (k div 2)"
      by (subst sift_up_spec.simps) simp
    with 1(1)[OF True] p 1(2) show ?thesis by (simp add: mset_swap)
  next
    case False
    then have "sift_up_spec a k = a" by (subst sift_up_spec.simps) auto
    then show ?thesis by simp
  qed
qed

lemma filler_sift_up_spec: "sift_up_spec a k ! 0 = a ! 0"
proof (induction a k rule: sift_up_spec.induct)
  case (1 a k)
  show ?case
  proof (cases "1 < k \<and> a ! k < a ! (k div 2)")
    case True
    then have "sift_up_spec a k = sift_up_spec (a[k := a ! (k div 2), k div 2 := a ! k]) (k div 2)"
      by (subst sift_up_spec.simps) simp
    moreover from True have "k \<noteq> 0" "k div 2 \<noteq> 0" by auto
    ultimately show ?thesis using 1[OF True] by simp
  next
    case False
    then have "sift_up_spec a k = a" by (subst sift_up_spec.simps) auto
    then show ?thesis by simp
  qed
qed

lemma mset_sift_down_spec: "i < length a \<Longrightarrow> mset (sift_down_spec a i) = mset a"
proof (induction a i rule: sift_down_spec.induct)
  case (1 a i)
  let ?m = "min_child_spec a i"
  show ?case
  proof (cases "a ! ?m < a ! i")
    case True
    then have eq: "sift_down_spec a i = sift_down_spec (a[i := a ! ?m, ?m := a ! i]) ?m"
      by (subst sift_down_spec.simps) (simp add: Let_def)
    from min_child_spec_cases[of a i] 1(2) have m: "?m < length a" by auto
    with 1(1)[OF refl True] 1(2) eq show ?thesis by (simp add: mset_swap)
  next
    case False
    then have "sift_down_spec a i = a"
      by (subst sift_down_spec.simps) (simp add: Let_def)
    then show ?thesis by simp
  qed
qed

lemma filler_sift_down_spec: "1 \<le> i \<Longrightarrow> sift_down_spec a i ! 0 = a ! 0"
proof (induction a i rule: sift_down_spec.induct)
  case (1 a i)
  let ?m = "min_child_spec a i"
  show ?case
  proof (cases "a ! ?m < a ! i")
    case True
    then have eq: "sift_down_spec a i = sift_down_spec (a[i := a ! ?m, ?m := a ! i]) ?m"
      by (subst sift_down_spec.simps) (simp add: Let_def)
    from True have "?m \<noteq> i" by auto
    with min_child_spec_cases[of a i] 1(2) have m: "1 \<le> ?m" by auto
    with 1(1)[OF refl True] 1(2) eq show ?thesis by simp
  next
    case False
    then have "sift_down_spec a i = a"
      by (subst sift_down_spec.simps) (simp add: Let_def)
    then show ?thesis by simp
  qed
qed

lemma sift_up_spec_Nil [simp]: "sift_up_spec a k = [] \<longleftrightarrow> a = []"
  by (metis length_0_conv length_sift_up_spec)

lemma sift_down_spec_Nil [simp]: "sift_down_spec a i = [] \<longleftrightarrow> a = []"
  by (metis length_0_conv length_sift_down_spec)

lemma entries_eqI:
  assumes "mset a = mset b" "a ! 0 = b ! 0" "a \<noteq> []"
  shows "entries a = entries b"
proof -
  from assms(1,3) have "b \<noteq> []" by auto
  with assms(3) have "a = a ! 0 # tl a" "b = b ! 0 # tl b"
    by (simp_all add: hd_conv_nth[symmetric])
  then have "mset a = add_mset (a ! 0) (mset (tl a))" "mset b = add_mset (b ! 0) (mset (tl b))"
    by (metis mset.simps(2))+
  with assms(1,2) show ?thesis by (simp add: entries_def)
qed

lemma parents_le_root_le: "parents_le a \<Longrightarrow> 1 \<le> i \<Longrightarrow> i < length a \<Longrightarrow> a ! 1 \<le> a ! i"
proof (induction i rule: less_induct)
  case (less i)
  show ?case
  proof (cases "i = 1")
    case True
    then show ?thesis by simp
  next
    case False
    with less(3) have i: "2 \<le> i" by simp
    with less(2,4) have "a ! (i div 2) \<le> a ! i" by (simp add: parents_le_def)
    moreover from i less(4) have "a ! 1 \<le> a ! (i div 2)"
      by (intro less(1)[OF _ less(2)]) auto
    ultimately show ?thesis by simp
  qed
qed

text \<open>What \<open>insert_spec\<close> does to the length, the filler entry, the entries and the order.\<close>

lemma length_insert_spec: "length (insert_spec v a) = length a + 1"
  by (simp add: insert_spec_def)

lemma filler_insert_spec: "a \<noteq> [] \<Longrightarrow> insert_spec v a ! 0 = a ! 0"
  by (simp add: insert_spec_def filler_sift_up_spec nth_append)

lemma entries_insert_spec: "a \<noteq> [] \<Longrightarrow> entries (insert_spec v a) = add_mset v (entries a)"
proof -
  assume a: "a \<noteq> []"
  have "entries (insert_spec v a) = entries (a @ [v])"
    unfolding insert_spec_def
    by (rule entries_eqI) (simp_all add: mset_sift_up_spec filler_sift_up_spec)
  with a show ?thesis by (simp add: entries_def)
qed

lemma parents_le_insert_spec:
  assumes "parents_le a" "a \<noteq> []"
  shows "parents_le (insert_spec v a)"
proof -
  have "sift_up_inv (a @ [v]) (length a)"
    unfolding sift_up_inv_def
  proof (intro conjI allI impI)
    fix i assume "2 \<le> i \<and> i < length (a @ [v]) \<and> i \<noteq> length a"
    then have i: "2 \<le> i" "i < length a" by auto
    then have "i div 2 < length a" by auto
    with i assms(1) show "(a @ [v]) ! (i div 2) \<le> (a @ [v]) ! i"
      by (simp add: nth_append parents_le_def)
  next
    fix i assume "2 \<le> i \<and> i < length (a @ [v]) \<and> i div 2 = length a \<and> 2 \<le> length a"
    then have False by auto
    then show "(a @ [v]) ! (length a div 2) \<le> (a @ [v]) ! i" ..
  qed
  then show ?thesis
    unfolding insert_spec_def by (rule parents_le_sift_up_spec) simp
qed

text \<open>The same for \<open>removeMin_spec\<close>, which returns the root entry.\<close>

lemma removeMin_spec_props:
  assumes "2 \<le> length a"
  shows "fst (removeMin_spec a) = a ! 1"
    and "length (snd (removeMin_spec a)) = length a - 1"
    and "snd (removeMin_spec a) ! 0 = a ! 0"
    and "entries a = add_mset (a ! 1) (entries (snd (removeMin_spec a)))"
    and "parents_le a \<Longrightarrow> parents_le (snd (removeMin_spec a))"
proof -
  let ?a1 = "butlast (a[1 := last a])"
  let ?r = "if 1 < length ?a1 then sift_down_spec ?a1 1 else ?a1"
  have r: "removeMin_spec a = (a ! 1, ?r)"
    by (simp add: removeMin_spec_def Let_def)
  show "fst (removeMin_spec a) = a ! 1" by (simp add: r)
  show "length (snd (removeMin_spec a)) = length a - 1" by (simp add: r)
  from assms have a10: "?a1 ! 0 = a ! 0" by (simp add: nth_butlast)
  then show "snd (removeMin_spec a) ! 0 = a ! 0"
    by (simp add: r filler_sift_down_spec del: One_nat_def)
  from assms obtain d x ys where a: "a = d # x # ys" 
    by (cases a; cases "tl a") auto
  have e1: "entries a = add_mset (a ! 1) (entries ?a1)"
    by (cases ys rule: rev_cases) (simp_all add: a entries_def butlast_append)
  have "entries ?r = entries ?a1"
  proof (cases "1 < length ?a1")
    case True
    have "?a1 \<noteq> []"
    proof
      assume "?a1 = []"
      then have "length ?a1 = 0" by (simp only: list.size)
      with True show False by linarith
    qed
    with True have "entries (sift_down_spec ?a1 1) = entries ?a1"
      by (intro entries_eqI)
        (simp_all add: mset_sift_down_spec filler_sift_down_spec del: One_nat_def)
    with True show ?thesis by simp
  next
    case False
    then show ?thesis by simp
  qed
  with e1 show "entries a = add_mset (a ! 1) (entries (snd (removeMin_spec a)))"
    by (simp add: r)
  show "parents_le (snd (removeMin_spec a))" if h: "parents_le a"
  proof (cases "1 < length ?a1")
    case True
    have "sift_down_inv ?a1 1"
      unfolding sift_down_inv_def
    proof (intro conjI allI impI)
      fix j assume "2 \<le> j \<and> j < length ?a1 \<and> j div 2 \<noteq> 1"
      then have j: "4 \<le> j" "j < length a - 1" by auto
      then have "j div 2 < length a - 1" "j div 2 \<noteq> 1" "j \<noteq> 1" by auto
      with j h show "?a1 ! (j div 2) \<le> ?a1 ! j"
        by (simp add: nth_butlast parents_le_def)
    next
      fix j assume "2 \<le> j \<and> j < length ?a1 \<and> j div 2 = 1 \<and> (2::nat) \<le> 1"
      then have False by simp
      then show "?a1 ! (1 div 2) \<le> ?a1 ! j" ..
    qed
    from parents_le_sift_down_spec[OF this _ True] True show ?thesis by (simp add: r)
  next
    case False
    then have "parents_le ?a1" by (auto simp: parents_le_def)
    with False show ?thesis by (simp add: r)
  qed
qed

section \<open>Sequences that run to their end\<close>

text \<open>
  \<^verbatim>\<open>removeMin\<close> returns on every queue of one entry or more, and what it returns and
  leaves does not depend on the storage beyond the end of the vector.
\<close>

lemma removeMin_Inr_iff:
  "removeMin mem heap = Inr r \<longleftrightarrow> 2 \<le> length heap \<and> r = removeMin_spec heap"
proof (cases "2 \<le> length heap")
  case True
  then show ?thesis by (auto simp: removeMin_spec_eq)
next
  case False
  then have "length heap \<le> 1" by simp
  with False show ?thesis by (simp add: removeMin_no_entry)
qed

lemma removeMin_any_storage: "removeMin mem heap = removeMin mem' heap"
proof (cases "2 \<le> length heap")
  case True
  then show ?thesis by (simp add: removeMin_spec_eq)
next
  case False
  then have "length heap \<le> 1" by simp
  then show ?thesis by (simp add: removeMin_no_entry)
qed

lemma step_any_storage: "step mem c heap = step mem' c heap"
  using removeMin_any_storage[of mem heap mem'] by (cases c) simp_all

lemma run_any_storage: "run mem cs heap = run mem' cs heap"
  by (induction cs arbitrary: heap)
    (auto simp: step_any_storage[of mem _ _ mem'] split: sum.splits)

lemma step_RemoveMin_Inr_iff:
  "step mem RemoveMin heap = Inr heap' \<longleftrightarrow>
   2 \<le> length heap \<and> heap' = snd (removeMin_spec heap)"
proof (cases "2 \<le> length heap")
  case True
  then show ?thesis by (auto simp: removeMin_spec_eq split: prod.splits)
next
  case False
  then have "\<And>r. removeMin mem heap \<noteq> Inr r" by (simp add: removeMin_Inr_iff)
  with False show ?thesis by (auto split: sum.splits)
qed

lemma step_props:
  assumes "step mem c heap = Inr heap'" "heap \<noteq> []"
  shows "heap' \<noteq> []" and "heap' ! 0 = heap ! 0" and "heap_order heap \<Longrightarrow> heap_order heap'"
proof -
  have "heap' \<noteq> [] \<and> heap' ! 0 = heap ! 0 \<and> (parents_le heap \<longrightarrow> parents_le heap')"
  proof (cases c)
    case (Insert v)
    with assms have h: "heap' = insert_spec v heap" by (simp add: insert_pq_spec)
    have "length heap' \<noteq> 0" unfolding h length_insert_spec by simp
    then show ?thesis using assms(2)
      by (auto simp: h filler_insert_spec parents_le_insert_spec)
  next
    case RemoveMin
    with assms(1) have "step mem RemoveMin heap = Inr heap'" by simp
    then have 2: "2 \<le> length heap" and h: "heap' = snd (removeMin_spec heap)"
      unfolding step_RemoveMin_Inr_iff by simp_all
    from removeMin_spec_props(2)[OF 2] 2 have "length heap' \<noteq> 0" by (simp add: h)
    then show ?thesis
      using removeMin_spec_props(3,5)[OF 2] by (auto simp: h)
  qed
  then show "heap' \<noteq> []" and "heap' ! 0 = heap ! 0" and "heap_order heap \<Longrightarrow> heap_order heap'"
    using assms(2) by (simp_all add: heap_order_parents_le)
qed

lemma step_size:
  assumes "step mem c heap = Inr heap'" "heap \<noteq> []"
  shows "size_pq heap' + removals [c] = size_pq heap + inserts [c]"
proof (cases c)
  case (Insert v)
  with assms have "heap' = insert_spec v heap" by (simp add: insert_pq_spec)
  then have "length heap' = length heap + 1" by (simp add: length_insert_spec)
  with assms(2) Insert show ?thesis by (simp add: size_pq_def inserts_def removals_def)
next
  case RemoveMin
  with assms(1) have "step mem RemoveMin heap = Inr heap'" by simp
  then have 2: "2 \<le> length heap" and h: "heap' = snd (removeMin_spec heap)"
    unfolding step_RemoveMin_Inr_iff by simp_all
  from removeMin_spec_props(2)[OF 2] h have "length heap' = length heap - 1" by simp
  with 2 have "size_pq heap' = length heap - 2" "size_pq heap = length heap - 1"
    by (auto simp: size_pq_def)
  with 2 RemoveMin show ?thesis by (simp add: inserts_def removals_def)
qed

lemma run_props:
  assumes "run mem cs heap = Inr heap'" "heap \<noteq> []"
  shows "heap' \<noteq> []" and "heap' ! 0 = heap ! 0" and "heap_order heap \<Longrightarrow> heap_order heap'"
    and "size_pq heap' + removals cs = size_pq heap + inserts cs"
proof -
  from assms have "heap' \<noteq> [] \<and> heap' ! 0 = heap ! 0 \<and> (heap_order heap \<longrightarrow> heap_order heap') \<and>
      size_pq heap' + removals cs = size_pq heap + inserts cs"
  proof (induction cs arbitrary: heap)
    case Nil
    then show ?case by (simp add: inserts_def removals_def)
  next
    case (Cons c cs)
    from Cons.prems(1) obtain h1 where s: "step mem c heap = Inr h1" and r: "run mem cs h1 = Inr heap'"
      by (auto split: sum.splits)
    have i: "inserts (c # cs) = inserts [c] + inserts cs"
      and j: "removals (c # cs) = removals [c] + removals cs"
      by (simp_all add: inserts_def removals_def)
    from step_props[OF s Cons.prems(2)] step_size[OF s Cons.prems(2)] Cons.IH[OF r]
    show ?case unfolding i j by auto
  qed
  then show "heap' \<noteq> []" and "heap' ! 0 = heap ! 0" and "heap_order heap \<Longrightarrow> heap_order heap'"
    and "size_pq heap' + removals cs = size_pq heap + inserts cs"
    by blast+
qed

lemma heap_order_PriorityQueue: "heap_order (PriorityQueue d)"
  by (simp add: heap_order_def PriorityQueue_def)

text \<open>
  A sequence runs to its end exactly when it calls \<^verbatim>\<open>removeMin\<close> on a non-empty queue
  only, and the condition passes to every prefix.
\<close>

lemma run_defined_iff:
  "heap \<noteq> [] \<Longrightarrow>
   (\<exists>heap'. run mem cs heap = Inr heap') \<longleftrightarrow> removals_nonempty cs (size_pq heap)"
proof (induction cs arbitrary: heap)
  case Nil
  then show ?case by simp
next
  case (Cons c cs)
  show ?case
  proof (cases c)
    case (Insert v)
    have "size_pq (insert_spec v heap) = size_pq heap + 1"
      using Cons.prems by (simp add: size_pq_def length_insert_spec)
    with Cons.IH[of "insert_spec v heap"] Insert show ?thesis
      by (simp add: insert_pq_spec insert_spec_def)
  next
    case RemoveMin
    show ?thesis
    proof (cases "2 \<le> length heap")
      case True
      let ?h = "snd (removeMin_spec heap)"
      from removeMin_spec_props(2)[OF True] True
      have "?h \<noteq> []" "size_pq ?h = size_pq heap - 1" "1 \<le> size_pq heap"
        by (auto simp: size_pq_def)
      with Cons.IH[of ?h] RemoveMin True show ?thesis
        by (simp add: removeMin_spec_eq split_beta)
    next
      case False
      then have "length heap \<le> 1" by simp
      with Cons.prems RemoveMin show ?thesis
        by (simp add: removeMin_no_entry size_pq_def)
    qed
  qed
qed

lemma removals_nonempty_prefix:
  "removals_nonempty (cs @ cs') n \<Longrightarrow> removals_nonempty cs n"
proof (induction cs arbitrary: n)
  case Nil
  then show ?case by simp
next
  case (Cons c cs)
  then show ?case by (cases c) auto
qed

lemma run_from_new:
  assumes "removals_nonempty (cs @ cs') 0"
  shows "\<exists>heap. run mem cs (PriorityQueue d) = Inr heap \<and> heap \<noteq> [] \<and> heap ! 0 = d \<and>
           heap_order heap \<and> size_pq heap + removals cs = inserts cs"
proof -
  from removals_nonempty_prefix[OF assms] have "removals_nonempty cs (size_pq [d])" by simp
  then obtain heap where r: "run mem cs [d] = Inr heap"
    using run_defined_iff[of "[d]" mem cs] by auto
  from run_props[OF r] heap_order_PriorityQueue[of d] r show ?thesis
    by (simp add: PriorityQueue_def)
qed

section \<open>What the tester computes\<close>

lemma less_at_in [simp]:
  "a < length heap \<Longrightarrow> b < length heap \<Longrightarrow> less_at heap a b = Inr (heap ! a < heap ! b)"
  by (simp add: less_at_def)

lemma isHeapOrder_loop_eq:
  "heap \<noteq> [] \<Longrightarrow> 1 \<le> i \<Longrightarrow>
   isHeapOrder_loop heap i yes = Inr (yes \<and> (\<forall>j \<in> {i..size_pq heap}. strict_relation_at heap j))"
proof (induction heap i yes rule: isHeapOrder_loop.induct)
  case (1 heap i yes)
  show ?case
  proof (cases "i \<le> size_pq heap")
    case False
    then show ?thesis by (subst isHeapOrder_loop.simps) simp
  next
    case True
    from 1(2) have pos: "0 < length heap" by simp
    from 1(2) have sz: "size_pq heap = length heap - 1" by simp
    from True sz pos have i: "i < length heap" by linarith
    moreover have "i div 2 \<le> i" by simp
    ultimately have pi: "parent i < length heap" unfolding parent_def by linarith
    have l: "leftChild i < length heap" if "leftInBounds heap i"
      using that sz pos unfolding leftInBounds_def by linarith
    have r: "rightChild i < length heap" if "rightInBounds heap i"
      using that sz pos unfolding rightInBounds_def by linarith
    let ?c1 = "parent i > 0 \<longrightarrow> heap ! parent i < heap ! i"
    let ?c2 = "leftInBounds heap i \<longrightarrow> heap ! i < heap ! leftChild i"
    let ?c3 = "rightInBounds heap i \<longrightarrow> heap ! i < heap ! rightChild i"
    have e1: "(if parent i > 0 then less_at heap (parent i) i else Inr True) = Inr ?c1"
      using i pi by simp
    have e2: "(if leftInBounds heap i then less_at heap i (leftChild i) else Inr True) = Inr ?c2"
      using i l by simp
    have e3: "(if rightInBounds heap i then less_at heap i (rightChild i) else Inr True) = Inr ?c3"
      using i r by simp
    have "isHeapOrder_loop heap i yes = isHeapOrder_loop heap (i + 1) (yes \<and> ?c1 \<and> ?c2 \<and> ?c3)"
      by (subst isHeapOrder_loop.simps) (simp only: True e1 e2 e3 if_True sum.case)
    also have "\<dots> = Inr ((yes \<and> ?c1 \<and> ?c2 \<and> ?c3) \<and> (\<forall>j \<in> {i + 1..size_pq heap}. strict_relation_at heap j))"
      using 1(1)[OF True e1 e2 e3 1(2)] by simp
    also have "{i..size_pq heap} = insert i {i + 1..size_pq heap}"
      using True by auto
    then have "((yes \<and> ?c1 \<and> ?c2 \<and> ?c3) \<and> (\<forall>j \<in> {i + 1..size_pq heap}. strict_relation_at heap j))
      = (yes \<and> (\<forall>j \<in> {i..size_pq heap}. strict_relation_at heap j))"
      by (auto simp: strict_relation_at_def)
    finally show ?thesis .
  qed
qed

lemma isHeapOrder_eq:
  "heap \<noteq> [] \<Longrightarrow> isHeapOrder heap = Inr (\<forall>i \<in> {1..size_pq heap}. strict_relation_at heap i)"
  by (simp add: isHeapOrder_def isHeapOrder_loop_eq del: size_pq_nonempty)

text \<open>
  In heap order the strict relation holds at every position exactly when no entry is
  equal to the entry at its parent position.
\<close>

lemma strict_relation_iff:
  assumes "parents_le heap" "heap \<noteq> []"
  shows "(\<forall>i \<in> {1..size_pq heap}. strict_relation_at heap i) \<longleftrightarrow> no_equal_parent heap"
proof
  assume s: "\<forall>i \<in> {1..size_pq heap}. strict_relation_at heap i"
  show "no_equal_parent heap"
    unfolding no_equal_parent_def
  proof
    fix i assume i: "i \<in> {2..size_pq heap}"
    then have "i \<in> {1..size_pq heap}" "parent i > 0" by (auto simp: parent_def)
    with s have "heap ! parent i < heap ! i" by (auto simp: strict_relation_at_def)
    then show "heap ! parent i \<noteq> heap ! i" by simp
  qed
next
  assume n: "no_equal_parent heap"
  have lt: "heap ! (j div 2) < heap ! j" if "2 \<le> j" "j < length heap" for j
  proof -
    from that assms(1) have "heap ! (j div 2) \<le> heap ! j" by (simp add: parents_le_def)
    moreover from that assms(2) n have "heap ! (j div 2) \<noteq> heap ! j"
      by (auto simp: no_equal_parent_def parent_def)
    ultimately show ?thesis by simp
  qed
  show "\<forall>i \<in> {1..size_pq heap}. strict_relation_at heap i"
  proof
    fix i assume "i \<in> {1..size_pq heap}"
    with assms(2) have i: "1 \<le> i" "i < length heap" "0 < length heap" by auto
    have "parent i > 0 \<longrightarrow> heap ! parent i < heap ! i"
      using lt[of i] i by (auto simp: parent_def)
    moreover have "leftInBounds heap i \<longrightarrow> heap ! i < heap ! leftChild i"
      using lt[of "2 * i"] i assms(2) by (auto simp: leftInBounds_def leftChild_def)
    moreover have "rightInBounds heap i \<longrightarrow> heap ! i < heap ! rightChild i"
      using lt[of "2 * i + 1"] i assms(2) by (auto simp: rightInBounds_def rightChild_def)
    ultimately show "strict_relation_at heap i" by (simp add: strict_relation_at_def)
  qed
qed

section \<open>Sizes and frames\<close>

lemma size_pq_zero: "size_pq heap = 0 \<longleftrightarrow> length heap = 1"
  by (cases heap) (auto simp: size_pq_def)

lemma insert_spec_not_Nil [simp]: "insert_spec v a \<noteq> []"
  by (simp add: insert_spec_def)

lemma entries_set: "heap \<noteq> [] \<Longrightarrow> y \<in># entries heap \<longleftrightarrow> (\<exists>i. 1 \<le> i \<and> i < length heap \<and> y = heap ! i)"
proof -
  assume "heap \<noteq> []"
  then obtain d ys where h: "heap = d # ys" by (cases heap) auto
  have "y \<in> set ys \<longleftrightarrow> (\<exists>i. 1 \<le> i \<and> i < length (d # ys) \<and> y = (d # ys) ! i)"
  proof
    assume "y \<in> set ys"
    then obtain j where "j < length ys" "y = ys ! j" by (auto simp: in_set_conv_nth)
    then have "1 \<le> Suc j \<and> Suc j < length (d # ys) \<and> y = (d # ys) ! Suc j" by simp
    then show "\<exists>i. 1 \<le> i \<and> i < length (d # ys) \<and> y = (d # ys) ! i" by blast
  next
    assume "\<exists>i. 1 \<le> i \<and> i < length (d # ys) \<and> y = (d # ys) ! i"
    then obtain i where "1 \<le> i" "i < length (d # ys)" "y = (d # ys) ! i" by blast
    then show "y \<in> set ys" by (cases i) auto
  qed
  then show ?thesis by (simp add: h entries_def)
qed

lemma insert_pq_frame:
  "heap \<noteq> [] \<Longrightarrow>
   \<exists>heap'. insert_pq v heap = Inr heap' \<and> entries heap' = add_mset v (entries heap) \<and>
     heap' ! 0 = heap ! 0 \<and> size_pq heap' = size_pq heap + 1"
  by (simp add: insert_pq_spec entries_insert_spec filler_insert_spec length_insert_spec)

lemma removeMin_frame:
  assumes "removeMin mem heap = Inr (x, heap')"
  shows "x = heap ! 1" "entries heap = add_mset x (entries heap')" "heap' ! 0 = heap ! 0"
    "size_pq heap = size_pq heap' + 1"
proof -
  from assms have 2: "2 \<le> length heap" and r: "(x, heap') = removeMin_spec heap"
    by (simp_all add: removeMin_Inr_iff)
  from r have x: "x = fst (removeMin_spec heap)" and h: "heap' = snd (removeMin_spec heap)"
    by (metis fst_conv, metis snd_conv)
  from removeMin_spec_props(1)[OF 2] x show "x = heap ! 1" by simp
  from removeMin_spec_props(4)[OF 2] x h removeMin_spec_props(1)[OF 2]
  show "entries heap = add_mset x (entries heap')" by simp
  from removeMin_spec_props(3)[OF 2] h show "heap' ! 0 = heap ! 0" by simp
  from removeMin_spec_props(2)[OF 2] h have "length heap' = length heap - 1" by simp
  with 2 show "size_pq heap = size_pq heap' + 1" by (auto simp: size_pq_def)
qed

section \<open>Draining a queue\<close>

lemma insert_all_props:
  "heap \<noteq> [] \<Longrightarrow>
   \<exists>heap'. insert_all xs heap = Inr heap' \<and> heap' \<noteq> [] \<and>
     entries heap' = entries heap + mset xs \<and> length heap' = length heap + length xs \<and>
     heap' ! 0 = heap ! 0 \<and> (parents_le heap \<longrightarrow> parents_le heap')"
proof (induction xs arbitrary: heap)
  case Nil
  then show ?case by simp
next
  case (Cons x xs)
  let ?h = "insert_spec x heap"
  from Cons.IH[of ?h] obtain heap' where
    "insert_all xs ?h = Inr heap'" "heap' \<noteq> []" "entries heap' = entries ?h + mset xs"
    "length heap' = length ?h + length xs" "heap' ! 0 = ?h ! 0" "parents_le ?h \<longrightarrow> parents_le heap'"
    by auto
  with Cons.prems show ?case
    by (simp add: insert_pq_spec entries_insert_spec length_insert_spec filler_insert_spec
        parents_le_insert_spec)
qed

lemma sorted_list_of_multiset_least:
  assumes "\<forall>y \<in># M. x \<le> y"
  shows "sorted_list_of_multiset (add_mset x M) = x # sorted_list_of_multiset M"
proof -
  from assms have "\<forall>y \<in> set (sorted_list_of_multiset M). x \<le> y" by simp
  then show ?thesis by (simp add: insort_is_Cons)
qed

lemma removeMin_n_sorted:
  "parents_le heap \<Longrightarrow> n + 1 \<le> length heap \<Longrightarrow>
   \<exists>heap'. removeMin_n mem n heap = Inr (take n (sorted_list_of_multiset (entries heap)), heap') \<and>
     length heap' = length heap - n \<and> heap' ! 0 = heap ! 0"
proof (induction n arbitrary: heap)
  case 0
  then show ?case by simp
next
  case (Suc n)
  from Suc.prems(2) have l: "2 \<le> length heap" and ne: "heap \<noteq> []" by auto
  let ?x = "heap ! 1" and ?h = "snd (removeMin_spec heap)"
  have r: "removeMin mem heap = Inr (?x, ?h)"
    using removeMin_spec_eq[OF l] removeMin_spec_props(1)[OF l]
    by (metis prod.collapse)
  have e: "entries heap = add_mset ?x (entries ?h)"
    by (rule removeMin_spec_props(4)[OF l])
  have "\<forall>y \<in># entries heap. ?x \<le> y"
    using parents_le_root_le[OF Suc.prems(1)] by (auto simp: entries_set[OF ne])
  with e have "\<forall>y \<in># entries ?h. ?x \<le> y"
    by (metis union_single_eq_member insert_iff set_mset_add_mset_insert)
  then have s: "sorted_list_of_multiset (entries heap) = ?x # sorted_list_of_multiset (entries ?h)"
    unfolding e by (rule sorted_list_of_multiset_least)
  have lh: "length ?h = length heap - 1" by (rule removeMin_spec_props(2)[OF l])
  with Suc.prems(2) have "n + 1 \<le> length ?h" by simp
  from Suc.IH[OF removeMin_spec_props(5)[OF l Suc.prems(1)] this]
  obtain heap' where "removeMin_n mem n ?h = Inr (take n (sorted_list_of_multiset (entries ?h)), heap')"
    "length heap' = length ?h - n" "heap' ! 0 = ?h ! 0"
    by blast
  with r s lh removeMin_spec_props(3)[OF l] show ?case by simp
qed

section \<open>Claims\<close>

text \<open>
  A sequence of calls is a list run from the queue the constructor makes. It satisfies
  \<open>removals_nonempty\<close> from 0 entries when each \<^verbatim>\<open>removeMin\<close> of it is called on a
  non-empty queue. In \<open>removals_nonempty (cs @ cs') 0\<close> the list \<open>cs\<close> is any prefix
  of such a sequence: what holds of the vector that \<open>cs\<close> leaves holds after each
  call. The storage \<open>mem\<close> beyond the end of the vector is arbitrary throughout.
\<close>

text \<open>
  C1. Inserting the entries of any list one by one into a new queue and then calling
  \<^verbatim>\<open>removeMin\<close> as many times as there are entries yields exactly these entries in
  non-decreasing order, and leaves the queue as the constructor made it.
\<close>

theorem removeMin_n_yields_sorted:
  "\<exists>heap. insert_all xs (PriorityQueue d) = Inr heap \<and>
          removeMin_n mem (length xs) heap = Inr (sort xs, PriorityQueue d)"
proof -
  from insert_all_props[of "[d]" xs] obtain heap where
    h: "insert_all xs [d] = Inr heap" "entries heap = mset xs" "length heap = 1 + length xs"
      "parents_le heap" "heap ! 0 = d"
    by (auto simp: entries_def parents_le_def)
  from h(3) have "length xs + 1 \<le> length heap" by simp
  from removeMin_n_sorted[OF h(4) this, of mem] h(2,3,5)
  obtain heap' where r: "removeMin_n mem (length xs) heap = Inr (take (length xs) (sort xs), heap')"
    and l: "length heap' = 1" "heap' ! 0 = d"
    by auto
  from l have "heap' = [d]" by (cases heap') auto
  with r h(1) show ?thesis by (simp add: PriorityQueue_def)
qed

text \<open>The entries 5, 3, 8, 1, 9, 2 of the specification's example, all six removed.\<close>

theorem removeMin_n_yields_sorted_witness:
  "insert_all [5, 3, 8, 1, 9, 2] (PriorityQueue (0::int)) = Inr [0, 1, 3, 2, 5, 9, 8] \<and>
   removeMin_n (\<lambda>_. 0) 6 [0::int, 1, 3, 2, 5, 9, 8] = Inr ([1, 2, 3, 5, 8, 9], [0])"
proof -
  have i: "insert_all [5, 3, 8, 1, 9, 2] (PriorityQueue (0::int)) = Inr [0, 1, 3, 2, 5, 9, 8]"
    by code_simp
  from removeMin_n_yields_sorted[of "[5, 3, 8, 1, 9, 2]" "0::int" "\<lambda>_. 0"] i
  have "removeMin_n (\<lambda>_. 0) (length [5, 3, 8, 1, 9, 2 :: int]) [0::int, 1, 3, 2, 5, 9, 8] =
        Inr (sort [5, 3, 8, 1, 9, 2], PriorityQueue 0)"
    by auto
  moreover have "length [5, 3, 8, 1, 9, 2 :: int] = 6" by simp
  moreover have "sort [5, 3, 8, 1, 9, 2 :: int] = [1, 2, 3, 5, 8, 9]" by simp
  ultimately have "removeMin_n (\<lambda>_. 0) 6 [0::int, 1, 3, 2, 5, 9, 8] = Inr ([1, 2, 3, 5, 8, 9], [0])"
    by (simp only: PriorityQueue_def)
  with i show ?thesis by blast
qed

text \<open>
  C2. For every sequence of \<^verbatim>\<open>insert\<close> and \<^verbatim>\<open>removeMin\<close> calls, each \<^verbatim>\<open>removeMin\<close> called
  on a non-empty queue only, after each call the heap-order property holds over the
  full live range: no stored entry is strictly less than the entry at its parent
  position.
\<close>

theorem heap_order_after_each_call:
  assumes "removals_nonempty (cs @ cs') 0"
  shows "\<exists>heap. run mem cs (PriorityQueue d) = Inr heap \<and> heap_order heap"
  using run_from_new[OF assms, of mem d] by blast

text \<open>
  A sequence that empties the queue twice, with two equal entries in between; the state
  after its first seven calls.
\<close>

theorem heap_order_after_each_call_witness:
  "removals_nonempty
     ([Insert 5, RemoveMin, Insert 3, Insert 8, Insert 1, Insert (1::int), RemoveMin] @
      [RemoveMin, RemoveMin, RemoveMin]) 0 \<and>
   run (\<lambda>_. 0) [Insert 5, RemoveMin, Insert 3, Insert 8, Insert 1, Insert 1, RemoveMin]
     (PriorityQueue (0::int)) = Inr [0, 1, 8, 3] \<and>
   heap_order [0::int, 1, 8, 3]"
proof -
  have v: "removals_nonempty
     ([Insert 5, RemoveMin, Insert 3, Insert 8, Insert 1, Insert (1::int), RemoveMin] @
      [RemoveMin, RemoveMin, RemoveMin]) 0"
    by simp
  have r: "run (\<lambda>_. 0) [Insert 5, RemoveMin, Insert 3, Insert 8, Insert 1, Insert 1, RemoveMin]
     (PriorityQueue (0::int)) = Inr [0, 1, 8, 3]"
    by code_simp
  from heap_order_after_each_call[OF v, of "\<lambda>_. 0" 0] r have "heap_order [0::int, 1, 8, 3]"
    by auto
  with v r show ?thesis by blast
qed

text \<open>
  C3. Claimed: when \<^verbatim>\<open>size()\<close> is 0, \<^verbatim>\<open>min\<close> and \<^verbatim>\<open>removeMin\<close> fail with an
  \<open>EmptyCollection\<close> error and leave the queue as it is. The source has no such check
  (it documents the empty case as undefined). As amended: when \<^verbatim>\<open>size()\<close> is 0, the
  first thing \<^verbatim>\<open>min\<close> and \<^verbatim>\<open>removeMin\<close> do is read \<^verbatim>\<open>heap[1]\<close> in a vector of length 1,
  an access out of range that is undefined, and no \<open>EmptyCollection\<close> error is raised.
\<close>

theorem empty_queue_read_out_of_range:
  "size_pq heap = 0 \<Longrightarrow>
   min_pq heap = Inl (OutOfRange 1 1) \<and> removeMin_checked heap = Inl (OutOfRange 1 1)"
  by (simp add: size_pq_zero min_pq_def removeMin_checked_no_entry)

theorem empty_queue_read_out_of_range_witness:
  "size_pq (PriorityQueue (0::int)) = 0 \<and>
   min_pq (PriorityQueue (0::int)) = Inl (OutOfRange 1 1) \<and>
   removeMin_checked (PriorityQueue (0::int)) = Inl (OutOfRange 1 1)"
proof -
  have s: "size_pq (PriorityQueue (0::int)) = 0" by (simp add: PriorityQueue_def size_pq_def)
  from empty_queue_read_out_of_range[OF s] s show ?thesis by simp
qed

text \<open>The claim as stated fails on the queue the constructor makes.\<close>

theorem empty_queue_no_EmptyCollection:
  "size_pq (PriorityQueue (0::int)) = 0 \<and>
   min_pq (PriorityQueue (0::int)) \<noteq> Inl EmptyCollection \<and>
   removeMin_checked (PriorityQueue (0::int)) \<noteq> Inl EmptyCollection"
  by (simp add: PriorityQueue_def size_pq_def min_pq_def removeMin_checked_no_entry)




text \<open>
  C5. On a queue with \<^verbatim>\<open>size() >= 1\<close>, \<^verbatim>\<open>removeMin\<close> saves the root entry, moves the
  last entry of the array to the root, shrinks the size by one, sifts down from the
  root through the minimum child (of two children in bounds the one with the smaller
  entry, the right one when they are equal; the left child when only it is in bounds;
  the position itself when neither is) while that child's entry is strictly less, and
  returns the saved root entry: it equals \<open>removeMin_spec\<close>.
\<close>

theorem removeMin_sifts_down:
  assumes "heap \<noteq> []" "1 \<le> size_pq heap"
  shows "removeMin mem heap = Inr (removeMin_spec heap) \<and> fst (removeMin_spec heap) = heap ! 1"
proof -
  from assms have "2 \<le> length heap" by simp
  from removeMin_spec_eq[OF this] removeMin_spec_props(1)[OF this] show ?thesis by simp
qed

text \<open>A queue of three entries, and a queue of one.\<close>

theorem removeMin_sifts_down_witness:
  "[0::int, 5, 3, 4] \<noteq> [] \<and> 1 \<le> size_pq [0::int, 5, 3, 4] \<and>
   removeMin (\<lambda>_. 0) [0::int, 5, 3, 4] = Inr (5, [0, 3, 4]) \<and>
   [0::int, 7] \<noteq> [] \<and> 1 \<le> size_pq [0::int, 7] \<and>
   removeMin (\<lambda>_. 0) [0::int, 7] = Inr (7, [0])"
proof -
  have a: "[0::int, 5, 3, 4] \<noteq> []" "1 \<le> size_pq [0::int, 5, 3, 4]" by simp_all
  have b: "[0::int, 7] \<noteq> []" "1 \<le> size_pq [0::int, 7]" by simp_all
  have s: "removeMin_spec [0::int, 5, 3, 4] = (5, [0, 3, 4])" by code_simp
  have t: "removeMin_spec [0::int, 7] = (7, [0])" by code_simp
  from removeMin_sifts_down[OF a, of "\<lambda>_. 0"] s
  have 1: "removeMin (\<lambda>_. 0) [0::int, 5, 3, 4] = Inr (5, [0, 3, 4])" by simp
  from removeMin_sifts_down[OF b, of "\<lambda>_. 0"] t
  have 2: "removeMin (\<lambda>_. 0) [0::int, 7] = Inr (7, [0])" by simp
  from a b 1 2 show ?thesis by blast
qed

text \<open>
  C6. \<^verbatim>\<open>insert(value)\<close> appends the value at the end of the array and sifts up: while
  the new entry is strictly less than its parent the two are swapped and the walk
  continues from the parent's position; it stops at the root or when the entry is not
  strictly less than its parent, so an entry equal to its parent is left where it was
  appended.
\<close>

theorem insert_sifts_up:
  "insert_pq v heap = Inr (insert_spec v heap) \<and>
   (length heap = 1 \<or> \<not> v < heap ! parent (length heap) \<longrightarrow>
      insert_pq v heap = Inr (heap @ [v]))"
proof -
  have "insert_spec v heap = heap @ [v]"
    if "length heap = 1 \<or> \<not> v < heap ! parent (length heap)"
  proof -
    have "length heap div 2 < length heap" if "1 < length heap"
      using that by simp
    with \<open>length heap = 1 \<or> \<not> v < heap ! parent (length heap)\<close>
    have "\<not> (1 < length heap \<and>
             (heap @ [v]) ! length heap < (heap @ [v]) ! (length heap div 2))"
      by (auto simp: nth_append parent_def)
    then show ?thesis
      unfolding insert_spec_def by (subst sift_up_spec.simps) (simp only: if_False)
  qed
  then show ?thesis by (auto simp: insert_pq_spec)
qed

text \<open>
  Two queues holding 1, 2, 3: the second 2 stays at the end, below the first; in the
  other queue it moves above the 3 and ends before the first 2 in the array.
\<close>

theorem insert_sifts_up_witness:
  "insert_pq 2 [0::int, 1, 2, 3] = Inr (insert_spec 2 [0, 1, 2, 3]) \<and>
   insert_pq 2 [0::int, 1, 2, 3] = Inr [0, 1, 2, 3, 2] \<and>
   insert_pq 2 [0::int, 1, 3, 2] = Inr [0, 1, 2, 2, 3]"
proof -
  have p: "length [0::int, 1, 2, 3] = 1 \<or>
           \<not> 2 < [0::int, 1, 2, 3] ! parent (length [0::int, 1, 2, 3])"
    by (simp add: parent_def)
  have e: "insert_pq 2 [0::int, 1, 3, 2] = Inr [0, 1, 2, 2, 3]" by code_simp
  from insert_sifts_up[of 2 "[0::int, 1, 2, 3]"] p
  have "insert_pq 2 [0::int, 1, 2, 3] = Inr (insert_spec 2 [0, 1, 2, 3])"
    and "insert_pq 2 [0::int, 1, 2, 3] = Inr ([0, 1, 2, 3] @ [2])"
    by blast+
  with e show ?thesis by simp
qed

text \<open>
  C7. On every non-empty queue that a sequence of calls leaves, each \<^verbatim>\<open>removeMin\<close> of it
  on a non-empty queue, \<^verbatim>\<open>min\<close> returns the entry at the root position 1, which is one of
  the stored entries and not greater than any of them. \<^verbatim>\<open>min\<close> is a \<^verbatim>\<open>const\<close> member:
  \<open>min_pq\<close> is a function of the vector alone and yields the entry only, so a second
  call on the same vector returns the same entry and the vector, and with it
  \<^verbatim>\<open>size()\<close>, is as before.
\<close>

theorem min_is_minimum_at_root:
  assumes "removals_nonempty cs 0"
  shows "\<exists>heap. run mem cs (PriorityQueue d) = Inr heap \<and>
           (1 \<le> size_pq heap \<longrightarrow>
              min_pq heap = Inr (heap ! 1) \<and> heap ! 1 \<in># entries heap \<and>
              (\<forall>y \<in># entries heap. heap ! 1 \<le> y))"
proof -
  from assms have "removals_nonempty (cs @ []) 0" by simp
  from run_from_new[OF this, of mem d] obtain heap where
    h: "run mem cs (PriorityQueue d) = Inr heap" and ne: "heap \<noteq> []" and "heap_order heap"
    by blast
  then have p: "parents_le heap" by (simp add: heap_order_parents_le)
  have "min_pq heap = Inr (heap ! 1) \<and> heap ! 1 \<in># entries heap \<and>
        (\<forall>y \<in># entries heap. heap ! 1 \<le> y)" if "1 \<le> size_pq heap"
  proof -
    from ne that have l: "1 < length heap" by simp
    then have "min_pq heap = Inr (heap ! 1)" by (simp add: min_pq_def del: One_nat_def)
    moreover from l ne have "heap ! 1 \<in># entries heap"
      unfolding entries_set[OF ne] by (intro exI[of _ 1]) simp
    moreover have "\<forall>y \<in># entries heap. heap ! 1 \<le> y"
      using parents_le_root_le[OF p] by (auto simp: entries_set[OF ne])
    ultimately show ?thesis by blast
  qed
  with h show ?thesis by blast
qed

text \<open>A sequence that empties the queue and goes on.\<close>

theorem min_is_minimum_at_root_witness:
  "removals_nonempty [Insert 5, RemoveMin, Insert 9, Insert (4::int), Insert 8] 0 \<and>
   run (\<lambda>_. 0) [Insert 5, RemoveMin, Insert 9, Insert 4, Insert 8] (PriorityQueue (0::int))
     = Inr [0, 4, 9, 8] \<and>
   1 \<le> size_pq [0::int, 4, 9, 8] \<and> min_pq [0::int, 4, 9, 8] = Inr 4 \<and>
   4 \<in># entries [0::int, 4, 9, 8]"
proof -
  have v: "removals_nonempty [Insert 5, RemoveMin, Insert 9, Insert (4::int), Insert 8] 0"
    by simp
  have r: "run (\<lambda>_. 0) [Insert 5, RemoveMin, Insert 9, Insert 4, Insert 8]
             (PriorityQueue (0::int)) = Inr [0, 4, 9, 8]"
    by code_simp
  have s: "1 \<le> size_pq [0::int, 4, 9, 8]" by simp
  from min_is_minimum_at_root[OF v, of "\<lambda>_. 0" 0] r s
  have "min_pq [0::int, 4, 9, 8] = Inr ([0::int, 4, 9, 8] ! 1)"
    and "[0::int, 4, 9, 8] ! 1 \<in># entries [0::int, 4, 9, 8]"
    by auto
  with v r s show ?thesis by simp
qed

text \<open>
  C8. After any interleaving of \<open>k\<close> \<^verbatim>\<open>insert\<close> calls and \<open>j\<close> \<^verbatim>\<open>removeMin\<close> calls, each
  \<^verbatim>\<open>removeMin\<close> called on a non-empty queue (so \<open>j \<le> k\<close>), \<^verbatim>\<open>size()\<close> returns
  \<open>k - j\<close>; on a new queue it returns 0.
\<close>

theorem size_is_inserts_minus_removals:
  "size_pq (PriorityQueue d) = 0 \<and>
   (removals_nonempty cs 0 \<longrightarrow>
      (\<exists>heap. run mem cs (PriorityQueue d) = Inr heap \<and> removals cs \<le> inserts cs \<and>
         size_pq heap = inserts cs - removals cs))"
proof -
  have "\<exists>heap. run mem cs (PriorityQueue d) = Inr heap \<and> removals cs \<le> inserts cs \<and>
         size_pq heap = inserts cs - removals cs" if "removals_nonempty cs 0"
  proof -
    from that have "removals_nonempty (cs @ []) 0" by simp
    from run_from_new[OF this, of mem d] obtain heap where
      "run mem cs (PriorityQueue d) = Inr heap" "size_pq heap + removals cs = inserts cs"
      by blast
    then show ?thesis by (intro exI[of _ heap]) linarith
  qed
  then show ?thesis by (simp add: PriorityQueue_def size_pq_def)
qed

text \<open>Three inserts and three removals, the queue empty in between and at the end.\<close>

theorem size_is_inserts_minus_removals_witness:
  "removals_nonempty [Insert 5, RemoveMin, Insert 3, Insert (8::int), RemoveMin, RemoveMin] 0 \<and>
   run (\<lambda>_. 0) [Insert 5, RemoveMin, Insert 3, Insert 8, RemoveMin, RemoveMin]
     (PriorityQueue (0::int)) = Inr [0] \<and>
   inserts [Insert 5, RemoveMin, Insert 3, Insert (8::int), RemoveMin, RemoveMin] = 3 \<and>
   removals [Insert 5, RemoveMin, Insert 3, Insert (8::int), RemoveMin, RemoveMin] = 3 \<and>
   size_pq [0::int] = 0"
proof -
  have v: "removals_nonempty
             [Insert 5, RemoveMin, Insert 3, Insert (8::int), RemoveMin, RemoveMin] 0"
    by simp
  have r: "run (\<lambda>_. 0) [Insert 5, RemoveMin, Insert 3, Insert 8, RemoveMin, RemoveMin]
             (PriorityQueue (0::int)) = Inr [0]"
    by code_simp
  have i: "inserts [Insert 5, RemoveMin, Insert 3, Insert (8::int), RemoveMin, RemoveMin] = 3"
    and j: "removals [Insert 5, RemoveMin, Insert 3, Insert (8::int), RemoveMin, RemoveMin] = 3"
    by (simp_all add: inserts_def removals_def)
  from size_is_inserts_minus_removals
    [of 0 "[Insert 5, RemoveMin, Insert 3, Insert (8::int), RemoveMin, RemoveMin]" "\<lambda>_. 0"] v r
  have "size_pq [0::int] =
        inserts [Insert 5, RemoveMin, Insert 3, Insert (8::int), RemoveMin, RemoveMin] -
        removals [Insert 5, RemoveMin, Insert 3, Insert (8::int), RemoveMin, RemoveMin]"
    by auto
  with i j have "size_pq [0::int] = 0" by simp
  with v r i j show ?thesis by blast
qed

text \<open>
  C9. Claimed: on every queue with \<^verbatim>\<open>size() >= 1\<close>, every read of the backing vector
  that \<^verbatim>\<open>removeMin\<close> performs uses an index strictly less than the current length of
  the vector. The code does not do this on a queue of one entry: after
  \<^verbatim>\<open>pop_back()\<close> the vector holds the filler entry only, \<^verbatim>\<open>minChild(1)\<close> is 1, and the
  loop condition reads \<^verbatim>\<open>heap[1]\<close> in a vector of length 1.
\<close>

theorem removeMin_reads_past_the_end:
  "size_pq [d, x] = 1 \<and> removeMin_checked [d, x] = Inl (OutOfRange 1 1) \<and>
   (heap \<noteq> [] \<and> 2 \<le> size_pq heap \<longrightarrow> (\<exists>r. removeMin_checked heap = Inr r))"
proof -
  have "\<exists>r. removeMin_checked heap = Inr r" if "heap \<noteq> [] \<and> 2 \<le> size_pq heap"
  proof -
    from that have "3 \<le> length heap" by auto
    from removeMin_checked_spec_eq[OF this] show ?thesis by blast
  qed
  moreover have "size_pq [d, x] = 1" by simp
  ultimately show ?thesis using removeMin_checked_one_entry[of d x] by blast
qed

text \<open>A queue of one entry, and a queue of three whose removal reads in range.\<close>

theorem removeMin_reads_past_the_end_witness:
  "size_pq [0::int, 5] = 1 \<and> removeMin_checked [0::int, 5] = Inl (OutOfRange 1 1) \<and>
   [0::int, 3, 5, 4] \<noteq> [] \<and> 2 \<le> size_pq [0::int, 3, 5, 4] \<and>
   removeMin_checked [0::int, 3, 5, 4] = Inr (3, [0, 4, 5])"
proof -
  have a: "[0::int, 3, 5, 4] \<noteq> [] \<and> 2 \<le> size_pq [0::int, 3, 5, 4]" by simp
  have r: "removeMin_checked [0::int, 3, 5, 4] = Inr (3, [0, 4, 5])" by code_simp
  from removeMin_reads_past_the_end[of 0 5 "[0::int, 3, 5, 4]"] a
  have "size_pq [0::int, 5] = 1" "removeMin_checked [0::int, 5] = Inl (OutOfRange 1 1)"
    "\<exists>r. removeMin_checked [0::int, 3, 5, 4] = Inr r"
    by blast+
  with a r show ?thesis by blast
qed

text \<open>
  C10. \<^verbatim>\<open>insert(v)\<close> adds exactly one occurrence of \<open>v\<close> to the stored multiset,
  \<^verbatim>\<open>removeMin\<close> on a non-empty queue deletes exactly one occurrence of the entry it
  returns, and neither changes the filler entry at index 0.
\<close>

theorem insert_and_removeMin_frames:
  assumes "heap \<noteq> []"
  shows "(\<exists>heap'. insert_pq v heap = Inr heap' \<and> entries heap' = add_mset v (entries heap) \<and>
            heap' ! 0 = heap ! 0) \<and>
         (1 \<le> size_pq heap \<longrightarrow>
            (\<exists>x heap'. removeMin mem heap = Inr (x, heap') \<and>
               entries heap = add_mset x (entries heap') \<and> heap' ! 0 = heap ! 0))"
proof (intro conjI impI)
  from insert_pq_frame[OF assms, of v]
  show "\<exists>heap'. insert_pq v heap = Inr heap' \<and> entries heap' = add_mset v (entries heap) \<and>
         heap' ! 0 = heap ! 0" by blast
next
  assume "1 \<le> size_pq heap"
  with assms have "2 \<le> length heap" by simp
  from removeMin_spec_eq[OF this, of mem] obtain x heap' where
    r: "removeMin mem heap = Inr (x, heap')"
    by (cases "removeMin_spec heap") auto
  from removeMin_frame(2,3)[OF r] r
  show "\<exists>x heap'. removeMin mem heap = Inr (x, heap') \<and>
          entries heap = add_mset x (entries heap') \<and> heap' ! 0 = heap ! 0" by blast
qed

text \<open>A queue of three entries, and a queue of one that \<^verbatim>\<open>removeMin\<close> empties.\<close>

theorem insert_and_removeMin_frames_witness:
  "[0::int, 3, 5, 4] \<noteq> [] \<and> 1 \<le> size_pq [0::int, 3, 5, 4] \<and>
   insert_pq 1 [0::int, 3, 5, 4] = Inr [0, 1, 3, 4, 5] \<and>
   entries [0::int, 1, 3, 4, 5] = add_mset 1 (entries [0::int, 3, 5, 4]) \<and>
   removeMin (\<lambda>_. 0) [0::int, 3, 5, 4] = Inr (3, [0, 4, 5]) \<and>
   entries [0::int, 3, 5, 4] = add_mset 3 (entries [0::int, 4, 5]) \<and>
   [0::int, 7] \<noteq> [] \<and> 1 \<le> size_pq [0::int, 7] \<and>
   removeMin (\<lambda>_. 0) [0::int, 7] = Inr (7, [0]) \<and>
   entries [0::int, 7] = add_mset 7 (entries [0::int])"
proof -
  have a: "[0::int, 3, 5, 4] \<noteq> []" "1 \<le> size_pq [0::int, 3, 5, 4]" by simp_all
  have b: "[0::int, 7] \<noteq> []" "1 \<le> size_pq [0::int, 7]" by simp_all
  have i: "insert_pq 1 [0::int, 3, 5, 4] = Inr [0, 1, 3, 4, 5]" by code_simp
  have r: "removeMin (\<lambda>_. 0) [0::int, 3, 5, 4] = Inr (3, [0, 4, 5])" by code_simp
  have s: "removeMin (\<lambda>_. 0) [0::int, 7] = Inr (7, [0])" by code_simp
  from insert_and_removeMin_frames[OF a(1), of 1 "\<lambda>_. 0"] a(2) i r
  have "entries [0::int, 1, 3, 4, 5] = add_mset 1 (entries [0::int, 3, 5, 4])"
    and "entries [0::int, 3, 5, 4] = add_mset 3 (entries [0::int, 4, 5])"
    by auto
  moreover from insert_and_removeMin_frames[OF b(1), of 1 "\<lambda>_. 0"] b(2) s
  have "entries [0::int, 7] = add_mset 7 (entries [0::int])" by auto
  ultimately show ?thesis using a b i r s by blast
qed

end
